theory Spec2Isabelle
  imports Main
begin

section \<open>Python strings and integers\<close>

text \<open>
  Python's \<open>str\<close> is modelled by \<open>string\<close>; an index into a text counts characters.
  \<open>str_int\<close> is \<open>str(i)\<close> for an \<open>int\<close>, the decimal rendering that the f-string
  \<open>f"{flags}"\<close> produces.
\<close>

definition digit_char :: "nat \<Rightarrow> char" where
  "digit_char d = char_of (48 + d)"

fun str_nat :: "nat \<Rightarrow> string" where
  "str_nat n = (if n < 10 then [digit_char n] else str_nat (n div 10) @ [digit_char (n mod 10)])"

declare str_nat.simps [simp del]

definition str_int :: "int \<Rightarrow> string" where
  "str_int i = (if i < 0 then CHR ''-'' # str_nat (nat (- i)) else str_nat (nat i))"

text \<open>The inverse reading of a decimal numeral, used only to show \<open>str_nat\<close> injective.\<close>

definition digit_val :: "char \<Rightarrow> nat" where
  "digit_val c = of_char c - 48"

definition read_nat :: "string \<Rightarrow> nat" where
  "read_nat s = foldl (\<lambda>a c. 10 * a + digit_val c) 0 s"


section \<open>The interface of the standard library's \<open>re\<close> module\<close>

text \<open>
  The repository does no matching of its own: every operation hands the pattern to
  \<open>re.compile\<close> and calls a method of the compiled pattern. The library is therefore a
  parameter of the model, a record of the functions the code calls. A call either returns
  a value, raises \<open>re.error\<close> (whose \<open>str\<close> is the carried text) or raises some
  other exception.
\<close>

datatype 'a outcome = Returned 'a | ReError string | OtherError string

text \<open>
  A match object holds the searched text, the span of the whole match, the spans of the
  capturing groups \<open>1..n\<close> (\<open>(-1, -1)\<close> for a group that did not take part) and the
  index of each named group.
\<close>

record match_obj =
  m_string :: string
  m_span :: "int \<times> int"
  m_subspans :: "(int \<times> int) list"
  m_groupindex :: "(string \<times> nat) list"

definition slice :: "string \<Rightarrow> int \<times> int \<Rightarrow> string" where
  "slice s se = take (nat (snd se - fst se)) (drop (nat (fst se)) s)"

definition span_text :: "string \<Rightarrow> int \<times> int \<Rightarrow> string option" where
  "span_text s se = (if fst se < 0 then None else Some (slice s se))"

definition group0 :: "match_obj \<Rightarrow> string" where
  \<comment> \<open>\<open>Match.group()\<close>: the whole match.\<close>
  "group0 m = slice (m_string m) (m_span m)"

definition groups_of :: "match_obj \<Rightarrow> string option list" where
  \<comment> \<open>\<open>Match.groups()\<close>: the subgroups from 1 up, \<open>None\<close> for one that did not take part.\<close>
  "groups_of m = map (span_text (m_string m)) (m_subspans m)"

definition span_of :: "match_obj \<Rightarrow> int list" where
  \<comment> \<open>\<open>Match.span()\<close>: the 2-tuple \<open>(start, end)\<close> of the whole match.\<close>
  "span_of m = [fst (m_span m), snd (m_span m)]"

definition groupdict_of :: "match_obj \<Rightarrow> (string \<times> string option) list" where
  \<comment> \<open>\<open>Match.groupdict()\<close>: every named group with its text.\<close>
  "groupdict_of m =
     map (\<lambda>(name, i).
            (name, if 1 \<le> i \<and> i \<le> length (m_subspans m)
                   then span_text (m_string m) (m_subspans m ! (i - 1)) else None))
         (m_groupindex m)"

record 'a re_module =
  re_parse :: "string \<Rightarrow> int \<Rightarrow> 'a outcome"
  pattern_groups :: "'a \<Rightarrow> nat"
  pattern_match :: "'a \<Rightarrow> string \<Rightarrow> match_obj option"
  pattern_search :: "'a \<Rightarrow> string \<Rightarrow> match_obj option"
  pattern_finditer :: "'a \<Rightarrow> string \<Rightarrow> match_obj list"
  pattern_sub :: "'a \<Rightarrow> string \<Rightarrow> string \<Rightarrow> string outcome"

text \<open>
  A compiled pattern is a Python object: its identity \<open>oid\<close> tells two objects with the
  same content apart. \<open>re_compile\<close> is \<open>re.compile\<close>; the object it returns gets the
  identity \<open>n\<close> that the caller passes, the next unused one.
\<close>

record 'a pattern_obj =
  oid :: nat
  body :: 'a

definition re_compile :: "'a re_module \<Rightarrow> nat \<Rightarrow> string \<Rightarrow> int \<Rightarrow> 'a pattern_obj outcome" where
  "re_compile re n p flags =
     (case re_parse re p flags of
        Returned a \<Rightarrow> Returned \<lparr>oid = n, body = a\<rparr>
      | ReError e \<Rightarrow> ReError e
      | OtherError e \<Rightarrow> OtherError e)"

text \<open>
  What the documentation of the library promises of a match object returned for a
  compiled pattern and a text: it is a match in that text, the whole match lies inside
  the text, and there is one subgroup span per capturing group of the pattern.
\<close>

definition match_ok :: "'a re_module \<Rightarrow> 'a \<Rightarrow> string \<Rightarrow> match_obj \<Rightarrow> bool" where
  "match_ok re a text m \<longleftrightarrow>
     m_string m = text \<and>
     0 \<le> fst (m_span m) \<and> fst (m_span m) \<le> snd (m_span m) \<and>
     snd (m_span m) \<le> int (length text) \<and>
     length (m_subspans m) = pattern_groups re a"

definition re_contract :: "'a re_module \<Rightarrow> bool" where
  "re_contract re \<longleftrightarrow>
     (\<forall>a text m. pattern_match re a text = Some m \<longrightarrow> match_ok re a text m) \<and>
     (\<forall>a text m. pattern_search re a text = Some m \<longrightarrow> match_ok re a text m) \<and>
     (\<forall>a text m. m \<in> set (pattern_finditer re a text) \<longrightarrow> match_ok re a text m)"

section \<open>regex_tester.py\<close>

datatype PatternType = EMAIL | PHONE | URL | DATE | CUSTOM

record MatchResult =
  matched :: bool
  value_str :: string
  groups :: "string option list"
  span :: "int list"
  named_groups :: "(string \<times> string option) list option"

record RegexContext =
  pattern :: string
  input_string :: "string option"
  position :: "int option"
  message :: "string option"

text \<open>
  Every exception of the two modules, and the library's own exceptions where the code lets
  them pass (\<open>Re_error\<close> is an uncaught \<open>re.error\<close>, \<open>Other_exception\<close> anything else).
\<close>

datatype exn =
    RegexError string
  | InvalidRegexError RegexContext
  | PatternNotFoundError RegexContext
  | EmptyPatternError RegexContext
  | Re_error string
  | Other_exception string

text \<open>
  The state the classes read and write: the \<open>_cache\<close> dictionary of a
  \<open>RegexCompiler\<close> and the identity the next compiled pattern object will get.
\<close>

record 'a state =
  cache :: "string \<rightharpoonup> 'a pattern_obj"
  next_oid :: nat

definition init :: "nat \<Rightarrow> 'a state" where
  \<comment> \<open>\<open>RegexCompiler.__init__\<close>\<close>
  "init n = \<lparr>cache = Map.empty, next_oid = n\<rparr>"

definition cache_key :: "string \<Rightarrow> int \<Rightarrow> string" where
  "cache_key p flags = p @ ''_'' @ str_int flags"

definition compile_pattern ::
  "'a re_module \<Rightarrow> 'a state \<Rightarrow> string \<Rightarrow> int \<Rightarrow> (exn + 'a pattern_obj) \<times> 'a state" where
  "compile_pattern re st p flags =
     (let key = cache_key p flags in
      case cache st key of
        None \<Rightarrow>
          (case re_compile re (next_oid st) p flags of
             Returned obj \<Rightarrow>
               (Inr obj, st\<lparr>cache := (cache st)(key \<mapsto> obj), next_oid := Suc (next_oid st)\<rparr>)
           | ReError e \<Rightarrow> (Inl (RegexError (''Invalid regex pattern: '' @ e)), st)
           | OtherError e \<Rightarrow> (Inl (Other_exception e), st))
      | Some obj \<Rightarrow> (Inr obj, st))"

definition clear_cache :: "'a state \<Rightarrow> 'a state" where
  "clear_cache st = st\<lparr>cache := Map.empty\<rparr>"

definition result_of :: "match_obj \<Rightarrow> MatchResult" where
  \<comment> \<open>The \<open>MatchResult(matched=True, ...)\<close> built from a match object, the same in
      \<open>match\<close> and \<open>find_all\<close>.\<close>
  "result_of m =
     \<lparr>matched = True, value_str = group0 m, groups = groups_of m, span = span_of m,
      named_groups = Some (groupdict_of m)\<rparr>"

definition no_match :: MatchResult where
  \<comment> \<open>\<open>MatchResult(matched=False, value="")\<close>: the other fields take the defaults of
      the dataclass.\<close>
  "no_match = \<lparr>matched = False, value_str = [], groups = [], span = [], named_groups = None\<rparr>"

definition match ::
  "'a re_module \<Rightarrow> 'a state \<Rightarrow> string \<Rightarrow> string \<Rightarrow> int \<Rightarrow> (exn + MatchResult) \<times> 'a state" where
  "match re st p text flags =
     (case compile_pattern re st p flags of
        (Inl e, st') \<Rightarrow> (Inl e, st')
      | (Inr compiled_pattern, st') \<Rightarrow>
          (case pattern_match re (body compiled_pattern) text of
             Some m \<Rightarrow> (Inr (result_of m), st')
           | None \<Rightarrow> (Inr no_match, st')))"

definition find_all ::
  "'a re_module \<Rightarrow> 'a state \<Rightarrow> string \<Rightarrow> string \<Rightarrow> int \<Rightarrow> (exn + MatchResult list) \<times> 'a state" where
  "find_all re st p text flags =
     (case compile_pattern re st p flags of
        (Inl e, st') \<Rightarrow> (Inl e, st')
      | (Inr compiled_pattern, st') \<Rightarrow>
          (Inr (map result_of (pattern_finditer re (body compiled_pattern) text)), st'))"

definition replace ::
  "'a re_module \<Rightarrow> 'a state \<Rightarrow> string \<Rightarrow> string \<Rightarrow> string \<Rightarrow> int \<Rightarrow> (exn + string) \<times> 'a state" where
  "replace re st p text replacement flags =
     (case compile_pattern re st p flags of
        (Inl e, st') \<Rightarrow> (Inl e, st')
      | (Inr compiled_pattern, st') \<Rightarrow>
          (case pattern_sub re (body compiled_pattern) replacement text of
             Returned s \<Rightarrow> (Inr s, st')
           | ReError e \<Rightarrow> (Inl (Re_error e), st')
           | OtherError e \<Rightarrow> (Inl (Other_exception e), st')))"

text \<open>
  The states a \<open>RegexCompiler\<close> can be in: a fresh one, and whatever its two methods make
  of a reachable one. \<open>match\<close>, \<open>find_all\<close> and \<open>replace\<close> change the state through
  \<open>compile_pattern\<close> only.
\<close>

inductive reachable :: "'a re_module \<Rightarrow> 'a state \<Rightarrow> bool" for re :: "'a re_module" where
  reach_init: "reachable re (init n)"
| reach_compile: "reachable re st \<Longrightarrow> reachable re (snd (compile_pattern re st p flags))"
| reach_clear: "reachable re st \<Longrightarrow> reachable re (clear_cache st)"

text \<open>
  Every entry of a reachable cache was put there by a successful compilation of the
  pattern and flags its key is made of.
\<close>

definition cache_inv :: "'a re_module \<Rightarrow> 'a state \<Rightarrow> bool" where
  "cache_inv re st \<longleftrightarrow>
     (\<forall>k obj. cache st k = Some obj \<longrightarrow>
        (\<exists>p f. k = cache_key p f \<and> re_parse re p f = Returned (body obj)))"


section \<open>exceptions.py\<close>

text \<open>
  Nothing here looks at the identity of the compiled pattern, so \<open>validate_regex\<close>
  returns its content.
\<close>

definition validate_regex :: "'a re_module \<Rightarrow> string \<Rightarrow> exn + 'a" where
  "validate_regex re p =
     (if p = [] then
        Inl (EmptyPatternError
          \<lparr>pattern = p, input_string = None, position = None,
           message = Some ''Empty pattern provided''\<rparr>)
      else
        (case re_parse re p 0 of
           Returned a \<Rightarrow> Inr a
         | ReError e \<Rightarrow>
             Inl (InvalidRegexError
               \<lparr>pattern = p, input_string = None, position = None, message = Some e\<rparr>)
         | OtherError e \<Rightarrow> Inl (Other_exception e)))"

definition find_pattern :: "'a re_module \<Rightarrow> string \<Rightarrow> string \<Rightarrow> bool \<Rightarrow> exn + string option" where
  "find_pattern re p text raise_if_not_found =
     (case validate_regex re p of
        Inl e \<Rightarrow> Inl e
      | Inr compiled_pattern \<Rightarrow>
          (let found = pattern_search re compiled_pattern text in
           if found = None \<and> raise_if_not_found then
             Inl (PatternNotFoundError
               \<lparr>pattern = p, input_string = Some text, position = Some 0,
                message = Some ''Pattern not found in input string''\<rparr>)
           else
             Inr (case found of Some m \<Rightarrow> Some (group0 m) | None \<Rightarrow> None)))"

section \<open>A reference implementation of the library interface\<close>

text \<open>
  To run the code on concrete inputs the interface needs an implementation. \<open>py_re\<close>
  implements a fragment of the library's pattern language with the library's
  backtracking semantics: literal characters, \<open>.\<close>, the classes \<open>\d \w \s \D \W \S\<close>,
  escaped punctuation, capturing groups, alternation and the greedy quantifiers
  \<open>* + ?\<close>, with flags \<open>0\<close> and ASCII text. It reports the library's errors for
  unbalanced parentheses, a quantifier with nothing before it, a repeated quantifier and
  a pattern that ends in a backslash, with the library's message and position. A pattern
  outside the fragment ends in \<open>OtherError\<close>; nothing below runs the implementation on
  one. The general statements below hold for every implementation of the interface and
  use this one for their concrete instances.
\<close>

datatype cls = Digit | Word | Space

datatype regex =
    Eps
  | Lit char
  | Dot
  | Cls cls bool
  | Seq regex regex
  | Alt regex regex
  | Group nat regex
  | Star regex
  | Plus regex
  | Opt regex

record compiled =
  ast :: regex
  ngroups :: nat

definition in_cls :: "cls \<Rightarrow> char \<Rightarrow> bool" where
  "in_cls k c =
     (let n = (of_char c :: nat) in
      case k of
        Digit \<Rightarrow> 48 \<le> n \<and> n \<le> 57
      | Word \<Rightarrow> (48 \<le> n \<and> n \<le> 57) \<or> (65 \<le> n \<and> n \<le> 90) \<or> (97 \<le> n \<and> n \<le> 122) \<or> n = 95
      | Space \<Rightarrow> (9 \<le> n \<and> n \<le> 13) \<or> (28 \<le> n \<and> n \<le> 32))"

fun nullable :: "regex \<Rightarrow> bool" where
  "nullable Eps = True"
| "nullable (Lit c) = False"
| "nullable Dot = False"
| "nullable (Cls k neg) = False"
| "nullable (Seq a b) = (nullable a \<and> nullable b)"
| "nullable (Alt a b) = (nullable a \<or> nullable b)"
| "nullable (Group g r) = nullable r"
| "nullable (Star r) = True"
| "nullable (Plus r) = nullable r"
| "nullable (Opt r) = True"

fun is_repeat :: "regex \<Rightarrow> bool" where
  "is_repeat (Star r) = True"
| "is_repeat (Plus r) = True"
| "is_repeat (Opt r) = True"
| "is_repeat r = False"

fun seq_of :: "regex list \<Rightarrow> regex" where
  "seq_of [] = Eps"
| "seq_of [r] = r"
| "seq_of (r # rs) = Seq r (seq_of rs)"

fun alt_of :: "regex list \<Rightarrow> regex" where
  "alt_of [] = Eps"
| "alt_of [r] = r"
| "alt_of (r # rs) = Alt r (alt_of rs)"

datatype frame = Frame (f_alts: "regex list") (f_items: "regex list") (f_opened: nat) (f_gid: nat)

definition close_frame :: "frame \<Rightarrow> regex" where
  "close_frame f = alt_of (f_alts f @ [seq_of (rev (f_items f))])"

definition push_item :: "regex \<Rightarrow> frame \<Rightarrow> frame" where
  "push_item r f = Frame (f_alts f) (r # f_items f) (f_opened f) (f_gid f)"

definition at_position :: "string \<Rightarrow> nat \<Rightarrow> string" where
  "at_position msg i = msg @ '' at position '' @ str_nat i"

definition unsupported :: "'a outcome" where
  "unsupported = OtherError ''outside the implemented fragment''"

definition repeat_item :: "char \<Rightarrow> regex \<Rightarrow> regex" where
  "repeat_item q r = (if q = CHR ''*'' then Star r else if q = CHR ''+'' then Plus r else Opt r)"

definition escape_item :: "char \<Rightarrow> regex option" where
  "escape_item c =
     (if c = CHR ''d'' then Some (Cls Digit False)
      else if c = CHR ''D'' then Some (Cls Digit True)
      else if c = CHR ''w'' then Some (Cls Word False)
      else if c = CHR ''W'' then Some (Cls Word True)
      else if c = CHR ''s'' then Some (Cls Space False)
      else if c = CHR ''S'' then Some (Cls Space True)
      else if in_cls Word c \<and> c \<noteq> CHR ''_'' then None
      else if (of_char c :: nat) \<ge> 128 then None
      else Some (Lit c))"

datatype step =
    Done "(regex \<times> nat) outcome"
  | Next bool nat frame "frame list"

definition bad_escape_end :: "nat \<Rightarrow> step" where
  "bad_escape_end i = Done (ReError (at_position ''bad escape (end of pattern)'' i))"

definition step_escape :: "string \<Rightarrow> nat \<Rightarrow> nat \<Rightarrow> frame \<Rightarrow> frame list \<Rightarrow> step" where
  "step_escape cs i n cur stack =
     (case cs of
        [] \<Rightarrow> bad_escape_end i
      | e # cs' \<Rightarrow>
          (case escape_item e of
             None \<Rightarrow> Done unsupported
           | Some r \<Rightarrow> Next True n (push_item r cur) stack))"

definition step_open :: "string \<Rightarrow> nat \<Rightarrow> nat \<Rightarrow> frame \<Rightarrow> frame list \<Rightarrow> step" where
  "step_open cs i n cur stack =
     (if cs = [CHR 0x5C] then bad_escape_end (i + 1)
      else if cs \<noteq> [] \<and> hd cs = CHR ''?'' then Done unsupported
      else Next False (n + 1) (Frame [] [] i (n + 1)) (cur # stack))"

definition step_close :: "string \<Rightarrow> nat \<Rightarrow> nat \<Rightarrow> frame \<Rightarrow> frame list \<Rightarrow> step" where
  "step_close cs i n cur stack =
     (case stack of
        [] \<Rightarrow> Done (ReError (at_position ''unbalanced parenthesis'' i))
      | f # fs \<Rightarrow>
          (if cs = [CHR 0x5C] then bad_escape_end (i + 1)
           else Next False n (push_item (Group (f_gid cur) (close_frame cur)) f) fs))"

definition step_bar :: "frame \<Rightarrow> frame" where
  "step_bar cur = Frame (f_alts cur @ [seq_of (rev (f_items cur))]) [] (f_opened cur) (f_gid cur)"

definition step_repeat :: "char \<Rightarrow> string \<Rightarrow> nat \<Rightarrow> nat \<Rightarrow> frame \<Rightarrow> frame list \<Rightarrow> step" where
  "step_repeat q cs i n cur stack =
     (if cs = [CHR 0x5C] then bad_escape_end (i + 1)
      else
        (case f_items cur of
           [] \<Rightarrow> Done (ReError (at_position ''nothing to repeat'' i))
         | r # rs \<Rightarrow>
             (if is_repeat r then Done (ReError (at_position ''multiple repeat'' i))
              else if cs \<noteq> [] \<and> (hd cs = CHR ''?'' \<or> hd cs = CHR ''+'') then Done unsupported
              else if q \<noteq> CHR ''?'' \<and> nullable r then Done unsupported
              else Next False n (Frame (f_alts cur) (repeat_item q r # rs) (f_opened cur) (f_gid cur))
                     stack)))"

definition parse_step :: "char \<Rightarrow> string \<Rightarrow> nat \<Rightarrow> nat \<Rightarrow> frame \<Rightarrow> frame list \<Rightarrow> step" where
  "parse_step c cs i n cur stack =
     (if c = CHR 0x5C then step_escape cs i n cur stack
      else if c = CHR ''('' then step_open cs i n cur stack
      else if c = CHR '')'' then step_close cs i n cur stack
      else if c = CHR ''|'' then Next False n (step_bar cur) stack
      else if c = CHR ''*'' \<or> c = CHR ''+'' \<or> c = CHR ''?'' then step_repeat c cs i n cur stack
      else if c \<in> set ''^${}[]'' \<or> (of_char c :: nat) \<ge> 128 then Done unsupported
      else Next False n (push_item (Lit c) cur) stack)"

fun parse_loop :: "string \<Rightarrow> nat \<Rightarrow> nat \<Rightarrow> frame \<Rightarrow> frame list \<Rightarrow> (regex \<times> nat) outcome" where
  "parse_loop [] i n cur [] = Returned (close_frame cur, n)"
| "parse_loop [] i n cur (f # fs) =
     ReError (at_position ''missing ), unterminated subpattern'' (f_opened cur))"
| "parse_loop (c # cs) i n cur stack =
     (case parse_step c cs i n cur stack of
        Done r \<Rightarrow> r
      | Next two n' cur' stack' \<Rightarrow>
          (if two then parse_loop (tl cs) (i + 2) n' cur' stack'
           else parse_loop cs (i + 1) n' cur' stack'))"


definition parse :: "string \<Rightarrow> int \<Rightarrow> compiled outcome" where
  "parse p flags =
     (if flags \<noteq> 0 \<or> CHR 0x0A \<in> set p then unsupported
      else
        (case parse_loop p 0 0 (Frame [] [] 0 0) [] of
           Returned (r, n) \<Rightarrow> Returned \<lparr>ast = r, ngroups = n\<rparr>
         | ReError e \<Rightarrow> ReError e
         | OtherError e \<Rightarrow> OtherError e))"

type_synonym mstate = "nat \<times> (int \<times> int) list"

definition one_char :: "(char \<Rightarrow> bool) \<Rightarrow> string \<Rightarrow> mstate \<Rightarrow> mstate list" where
  "one_char ok text s =
     (if fst s < length text \<and> ok (text ! fst s) then [(Suc (fst s), snd s)] else [])"

primrec star_loop :: "(mstate \<Rightarrow> mstate list) \<Rightarrow> nat \<Rightarrow> mstate \<Rightarrow> mstate list" where
  "star_loop f 0 s = [s]"
| "star_loop f (Suc k) s =
     concat (map (\<lambda>s'. if fst s < fst s' then star_loop f k s' else []) (f s)) @ [s]"

primrec run :: "regex \<Rightarrow> string \<Rightarrow> mstate \<Rightarrow> mstate list" where
  "run Eps text s = [s]"
| "run (Lit c) text s = one_char (\<lambda>x. x = c) text s"
| "run Dot text s = one_char (\<lambda>x. x \<noteq> CHR 0x0A) text s"
| "run (Cls k neg) text s = one_char (\<lambda>x. in_cls k x \<noteq> neg) text s"
| "run (Seq a b) text s = concat (map (run b text) (run a text s))"
| "run (Alt a b) text s = run a text s @ run b text s"
| "run (Group g r) text s =
     map (\<lambda>s'. (fst s', (snd s')[g - 1 := (int (fst s), int (fst s'))])) (run r text s)"
| "run (Star r) text s = star_loop (run r text) (length text) s"
| "run (Plus r) text s = concat (map (star_loop (run r text) (length text)) (run r text s))"
| "run (Opt r) text s = run r text s @ [s]"

definition attempt :: "compiled \<Rightarrow> string \<Rightarrow> nat \<Rightarrow> bool \<Rightarrow> match_obj option" where
  "attempt c text i must_advance =
     (case filter (\<lambda>s'. \<not> must_advance \<or> i < fst s')
             (run (ast c) text (i, replicate (ngroups c) (-1, -1))) of
        [] \<Rightarrow> None
      | s' # _ \<Rightarrow>
          Some \<lparr>m_string = text, m_span = (int i, int (fst s')), m_subspans = snd s',
                m_groupindex = []\<rparr>)"

primrec scan :: "compiled \<Rightarrow> string \<Rightarrow> nat \<Rightarrow> bool \<Rightarrow> nat \<Rightarrow> match_obj option" where
  "scan c text i must_advance 0 = None"
| "scan c text i must_advance (Suc k) =
     (case attempt c text i must_advance of
        Some m \<Rightarrow> Some m
      | None \<Rightarrow> scan c text (Suc i) False k)"

definition search_from :: "compiled \<Rightarrow> string \<Rightarrow> nat \<Rightarrow> bool \<Rightarrow> match_obj option" where
  "search_from c text pos must_advance = scan c text pos must_advance (Suc (length text) - pos)"

function finditer_from :: "compiled \<Rightarrow> string \<Rightarrow> nat \<Rightarrow> bool \<Rightarrow> match_obj list" where
  "finditer_from c text pos must_advance =
     (case search_from c text pos must_advance of
        None \<Rightarrow> []
      | Some m \<Rightarrow>
          (let s = nat (fst (m_span m)); e = nat (snd (m_span m)) in
           if e \<le> length text \<and> (pos < e \<or> (\<not> must_advance \<and> e = pos \<and> s = e))
           then m # finditer_from c text e (s = e)
           else [m]))"
  by pat_completeness auto
termination
  by (relation "measure (\<lambda>(c, text, pos, adv). 2 * (length text - pos) + (if adv then 0 else 1))")
     auto

declare finditer_from.simps [simp del]

datatype part = Text char | Ref nat

definition digit19 :: "char \<Rightarrow> bool" where
  "digit19 c \<longleftrightarrow> (49::nat) \<le> of_char c \<and> of_char c \<le> (57::nat)"

fun parse_template :: "string \<Rightarrow> nat \<Rightarrow> nat \<Rightarrow> part list outcome" where
  "parse_template [] i n = Returned []"
| "parse_template (c # cs) i n =
     (if c = CHR 0x5C then
        (case cs of
           [] \<Rightarrow> unsupported
         | d # cs' \<Rightarrow>
             (if digit19 d \<and> (cs' = [] \<or> \<not> in_cls Digit (hd cs')) then
                (if digit_val d > n then
                   ReError (at_position (''invalid group reference '' @ [d]) (i + 1))
                 else
                   (case parse_template cs' (i + 2) n of
                      Returned ps \<Rightarrow> Returned (Ref (digit_val d) # ps)
                    | ReError e \<Rightarrow> ReError e
                    | OtherError e \<Rightarrow> OtherError e))
              else unsupported))
      else
        (case parse_template cs (i + 1) n of
           Returned ps \<Rightarrow> Returned (Text c # ps)
         | ReError e \<Rightarrow> ReError e
         | OtherError e \<Rightarrow> OtherError e))"

definition expand :: "part list \<Rightarrow> match_obj \<Rightarrow> string" where
  "expand ps m =
     concat (map (\<lambda>p. case p of
                         Text c \<Rightarrow> [c]
                       | Ref k \<Rightarrow>
                           (case span_text (m_string m) (m_subspans m ! (k - 1)) of
                              None \<Rightarrow> []
                            | Some s \<Rightarrow> s)) ps)"

fun sub_pieces :: "part list \<Rightarrow> string \<Rightarrow> int \<Rightarrow> match_obj list \<Rightarrow> string" where
  "sub_pieces ps text prev [] = drop (nat prev) text"
| "sub_pieces ps text prev (m # ms) =
     slice text (prev, fst (m_span m)) @ expand ps m @ sub_pieces ps text (snd (m_span m)) ms"

definition sub :: "compiled \<Rightarrow> string \<Rightarrow> string \<Rightarrow> string outcome" where
  "sub c repl text =
     (case parse_template repl 0 (ngroups c) of
        Returned ps \<Rightarrow> Returned (sub_pieces ps text 0 (finditer_from c text 0 False))
      | ReError e \<Rightarrow> ReError e
      | OtherError e \<Rightarrow> OtherError e)"

definition py_re :: "compiled re_module" where
  "py_re =
     \<lparr>re_parse = parse,
      pattern_groups = ngroups,
      pattern_match = (\<lambda>c text. attempt c text 0 False),
      pattern_search = (\<lambda>c text. search_from c text 0 False),
      pattern_finditer = (\<lambda>c text. finditer_from c text 0 False),
      pattern_sub = sub\<rparr>"

text \<open>
  The property of a matching step that the bounds of a span rest on: from a position inside
  the text it moves forward, stays inside the text and keeps the number of group spans.
\<close>

definition advances :: "string \<Rightarrow> (mstate \<Rightarrow> mstate list) \<Rightarrow> bool" where
  "advances text f \<longleftrightarrow>
     (\<forall>s s'. s' \<in> set (f s) \<longrightarrow> fst s \<le> length text \<longrightarrow>
        fst s \<le> fst s' \<and> fst s' \<le> length text \<and> length (snd s') = length (snd s))"

text \<open>A state with one cached pattern, for the concrete instances.\<close>

definition st_a :: "compiled state" where
  "st_a = snd (compile_pattern py_re (init 0) ''a'' 0)"

text \<open>
  The patterns and the replacement template of the concrete instances. A backslash
  cannot be written inside a string literal, hence \<open>bsl\<close>: \<open>pat_email\<close> is
  \<open>(\w+)@(\w+)\<close>, \<open>pat_digits\<close> is \<open>\d+\<close>, \<open>pat_word\<close> is \<open>\w+\<close> and
  \<open>repl_swap\<close> is \<open>\2@\1\<close>.
\<close>

abbreviation bsl :: char where
  "bsl \<equiv> CHR 0x5C"

definition pat_email :: string where
  "pat_email = ''('' @ [bsl] @ ''w+)@('' @ [bsl] @ ''w+)''"

definition pat_digits :: string where
  "pat_digits = [bsl] @ ''d+''"

definition pat_word :: string where
  "pat_word = [bsl] @ ''w+''"

definition repl_swap :: string where
  "repl_swap = [bsl] @ ''2@'' @ [bsl] @ ''1''"

text \<open>
  What \<open>pat_email\<close> compiles to, and the result of matching it against \<open>a@b\<close>.
\<close>

definition email_compiled :: compiled where
  "email_compiled =
     \<lparr>ast = Seq (Group 1 (Plus (Cls Word False)))
              (Seq (Lit CHR ''@'') (Group 2 (Plus (Cls Word False)))),
      ngroups = 2\<rparr>"

definition email_match :: MatchResult where
  "email_match =
     \<lparr>matched = True, value_str = ''a@b'', groups = [Some ''a'', Some ''b''], span = [0, 3],
      named_groups = Some []\<rparr>"

section \<open>Decimal rendering is injective\<close>

lemma digit_val_digit_char: "d < 10 \<Longrightarrow> digit_val (digit_char d) = d"
  by (simp add: digit_val_def digit_char_def)

lemma read_nat_snoc: "read_nat (s @ [c]) = 10 * read_nat s + digit_val c"
  by (simp add: read_nat_def)

lemma read_nat_str_nat: "read_nat (str_nat n) = n"
proof (induction n rule: str_nat.induct)
  case (1 n)
  show ?case
  proof (cases "n < 10")
    case True
    then show ?thesis
      by (simp add: str_nat.simps [of n] read_nat_def digit_val_digit_char)
  next
    case False
    with 1 have "read_nat (str_nat (n div 10)) = n div 10" by simp
    with False show ?thesis
      by (simp add: str_nat.simps [of n] read_nat_snoc digit_val_digit_char)
  qed
qed

lemma str_nat_inj: "str_nat m = str_nat n \<Longrightarrow> m = n"
  by (metis read_nat_str_nat)

lemma digit_char_range: "d < 10 \<Longrightarrow> of_char (digit_char d) = 48 + d"
  by (simp add: digit_char_def)

lemma str_nat_chars: "c \<in> set (str_nat n) \<Longrightarrow> (48::nat) \<le> of_char c \<and> of_char c < (58::nat)"
proof (induction n rule: str_nat.induct)
  case (1 n)
  show ?case
  proof (cases "n < 10")
    case True
    with 1(2) show ?thesis
      by (simp add: str_nat.simps [of n] digit_char_range)
  next
    case False
    with 1(2) have "c \<in> set (str_nat (n div 10)) \<or> c = digit_char (n mod 10)"
      by (auto simp add: str_nat.simps [of n])
    then show ?thesis
    proof
      assume "c \<in> set (str_nat (n div 10))"
      with 1(1) False show ?thesis by simp
    next
      assume "c = digit_char (n mod 10)"
      then show ?thesis by (simp add: digit_char_range)
    qed
  qed
qed

lemma str_nat_nonempty: "str_nat n \<noteq> []"
  by (simp add: str_nat.simps [of n])

lemma str_nat_no_minus: "CHR ''-'' \<notin> set (str_nat n)"
  using str_nat_chars [of "CHR ''-''" n] by auto

lemma str_int_inj: "str_int i = str_int j \<Longrightarrow> i = j"
proof -
  assume h: "str_int i = str_int j"
  have hd_nat: "\<And>n. hd (str_nat n) \<noteq> CHR ''-''"
    using str_nat_no_minus str_nat_nonempty by (metis hd_in_set)
  show ?thesis
  proof (cases "i < 0")
    case True
    show ?thesis
    proof (cases "j < 0")
      case True
      with \<open>i < 0\<close> h have "nat (- i) = nat (- j)"
        by (simp add: str_int_def str_nat_inj)
      with True \<open>i < 0\<close> show ?thesis by simp
    next
      case False
      with \<open>i < 0\<close> h have "hd (str_nat (nat j)) = CHR ''-''"
        by (simp add: str_int_def) (metis list.sel(1))
      with hd_nat show ?thesis by blast
    qed
  next
    case False
    show ?thesis
    proof (cases "j < 0")
      case True
      with \<open>\<not> i < 0\<close> h have "hd (str_nat (nat i)) = CHR ''-''"
        by (simp add: str_int_def)
      with hd_nat show ?thesis by blast
    next
      case False
      with \<open>\<not> i < 0\<close> h have "nat i = nat j"
        by (simp add: str_int_def str_nat_inj)
      with False \<open>\<not> i < 0\<close> show ?thesis by simp
    qed
  qed
qed

lemma str_int_no_underscore: "CHR ''_'' \<notin> set (str_int i)"
  using str_nat_chars [of "CHR ''_''"] by (auto simp: str_int_def)

section \<open>The cache of compiled patterns\<close>

lemma takeWhile_upto:
  "x \<notin> set xs \<Longrightarrow> takeWhile (\<lambda>c. c \<noteq> x) (xs @ x # ys) = xs"
  by (induction xs) auto

lemma split_at_last_underscore:
  assumes "p1 @ CHR ''_'' # s1 = p2 @ CHR ''_'' # s2"
    and "CHR ''_'' \<notin> set s1" and "CHR ''_'' \<notin> set s2"
  shows "p1 = p2 \<and> s1 = s2"
proof -
  have r: "rev s1 @ CHR ''_'' # rev p1 = rev s2 @ CHR ''_'' # rev p2"
    using arg_cong [OF assms(1), of rev] by simp
  have "takeWhile (\<lambda>c. c \<noteq> CHR ''_'') (rev s1 @ CHR ''_'' # rev p1) = rev s1"
    using assms(2) by (simp add: takeWhile_upto)
  moreover have "takeWhile (\<lambda>c. c \<noteq> CHR ''_'') (rev s2 @ CHR ''_'' # rev p2) = rev s2"
    using assms(3) by (simp add: takeWhile_upto)
  ultimately have "rev s1 = rev s2" using r by simp
  then have "s1 = s2" by simp
  with assms(1) show ?thesis by simp
qed

lemma cache_key_inj:
  "cache_key p1 f1 = cache_key p2 f2 \<Longrightarrow> p1 = p2 \<and> f1 = f2"
  unfolding cache_key_def
  using split_at_last_underscore [of p1 "str_int f1" p2 "str_int f2"]
    str_int_no_underscore str_int_inj
  by auto

lemma cache_inv_compile:
  assumes "cache_inv re st"
  shows "cache_inv re (snd (compile_pattern re st p f))"
proof (cases "cache st (cache_key p f)")
  case (Some obj)
  then show ?thesis using assms by (simp add: compile_pattern_def)
next
  case None
  show ?thesis
  proof (cases "re_parse re p f")
    case (Returned a)
    with None assms show ?thesis
      unfolding cache_inv_def compile_pattern_def re_compile_def
      by (auto simp: Let_def)
  next
    case (ReError e)
    with None assms show ?thesis
      by (simp add: compile_pattern_def re_compile_def)
  next
    case (OtherError e)
    with None assms show ?thesis
      by (simp add: compile_pattern_def re_compile_def)
  qed
qed

lemma reachable_cache_inv: "reachable re st \<Longrightarrow> cache_inv re st"
proof (induction rule: reachable.induct)
  case (reach_init n)
  show ?case by (simp add: cache_inv_def init_def)
next
  case (reach_compile st p flags)
  then show ?case by (simp add: cache_inv_compile)
next
  case (reach_clear st)
  show ?case by (simp add: cache_inv_def clear_cache_def)
qed

lemma reachable_cached_body:
  assumes "reachable re st" and "cache st (cache_key p f) = Some obj"
  shows "re_parse re p f = Returned (body obj)"
proof -
  from assms obtain p' f' where "cache_key p f = cache_key p' f'"
    and "re_parse re p' f' = Returned (body obj)"
    using reachable_cache_inv [OF assms(1)] unfolding cache_inv_def by blast
  then show ?thesis using cache_key_inj by metis
qed

lemma compile_invalid:
  assumes "reachable re st" and "re_parse re p f = ReError msg"
  shows "compile_pattern re st p f = (Inl (RegexError (''Invalid regex pattern: '' @ msg)), st)"
proof (cases "cache st (cache_key p f)")
  case None
  with assms(2) show ?thesis by (simp add: compile_pattern_def re_compile_def)
next
  case (Some obj)
  with assms show ?thesis using reachable_cached_body by fastforce
qed

lemma compile_valid:
  assumes "reachable re st" and "re_parse re p f = Returned a"
  shows "\<exists>obj. fst (compile_pattern re st p f) = Inr obj \<and> body obj = a"
proof (cases "cache st (cache_key p f)")
  case None
  with assms(2) show ?thesis by (simp add: compile_pattern_def re_compile_def)
next
  case (Some obj)
  with assms have "body obj = a" using reachable_cached_body by fastforce
  with Some show ?thesis by (simp add: compile_pattern_def)
qed

lemma compile_twice:
  assumes "compile_pattern re st p f = (Inr obj, st')"
  shows "compile_pattern re st' p f = (Inr obj, st')"
  using assms
  by (auto simp: compile_pattern_def Let_def split: option.splits outcome.splits)

section \<open>The reference implementation keeps the promises of the library\<close>

lemma advancesD:
  "advances text f \<Longrightarrow> s' \<in> set (f s) \<Longrightarrow> fst s \<le> length text \<Longrightarrow>
   fst s \<le> fst s' \<and> fst s' \<le> length text \<and> length (snd s') = length (snd s)"
  unfolding advances_def by blast

lemma advances_one_char: "advances text (one_char ok text)"
  by (auto simp: advances_def one_char_def split: if_splits)

lemma advances_star_loop:
  assumes "advances text f"
  shows "advances text (star_loop f k)"
proof (induction k)
  case 0
  show ?case by (simp add: advances_def)
next
  case (Suc k)
  show ?case
    unfolding advances_def
  proof (intro allI impI)
    fix s s'
    assume mem: "s' \<in> set (star_loop f (Suc k) s)" and le: "fst s \<le> length text"
    then consider "s' = s"
      | t where "t \<in> set (f s)" "fst s < fst t" "s' \<in> set (star_loop f k t)"
      by (auto split: if_splits)
    then show "fst s \<le> fst s' \<and> fst s' \<le> length text \<and> length (snd s') = length (snd s)"
    proof cases
      case 1
      with le show ?thesis by simp
    next
      case 2
      from advancesD [OF assms 2(1) le] have t: "fst t \<le> length text" "length (snd t) = length (snd s)"
        by simp_all
      from advancesD [OF Suc 2(3) t(1)] t 2(2) show ?thesis by simp
    qed
  qed
qed

lemma advances_seq:
  assumes "advances text f" and "advances text g"
  shows "advances text (\<lambda>s. concat (map g (f s)))"
  unfolding advances_def
proof (intro allI impI)
  fix s s'
  assume mem: "s' \<in> set (concat (map g (f s)))" and le: "fst s \<le> length text"
  then obtain t where t: "t \<in> set (f s)" "s' \<in> set (g t)" by auto
  from advancesD [OF assms(1) t(1) le] have tt: "fst s \<le> fst t" "fst t \<le> length text"
    "length (snd t) = length (snd s)" by simp_all
  from advancesD [OF assms(2) t(2) tt(2)] tt
  show "fst s \<le> fst s' \<and> fst s' \<le> length text \<and> length (snd s') = length (snd s)" by simp
qed

lemma advances_run: "advances text (run r text)"
proof (induction r)
  case Eps
  show ?case by (simp add: advances_def)
next
  case (Lit c)
  have "run (Lit c) text = one_char (\<lambda>x. x = c) text" by (rule ext) simp
  then show ?case by (simp add: advances_one_char)
next
  case Dot
  have "run Dot text = one_char (\<lambda>x. x \<noteq> CHR 0x0A) text" by (rule ext) simp
  then show ?case by (simp add: advances_one_char)
next
  case (Cls k neg)
  have "run (Cls k neg) text = one_char (\<lambda>x. in_cls k x \<noteq> neg) text" by (rule ext) simp
  then show ?case by (simp add: advances_one_char)
next
  case (Seq a b)
  have "run (Seq a b) text = (\<lambda>s. concat (map (run b text) (run a text s)))" by (rule ext) simp
  with advances_seq [OF Seq.IH] show ?case by simp
next
  case (Alt a b)
  then show ?case unfolding advances_def by auto
next
  case (Group g r)
  then show ?case unfolding advances_def by auto
next
  case (Star r)
  have "run (Star r) text = star_loop (run r text) (length text)" by (rule ext) simp
  with advances_star_loop [OF Star.IH] show ?case by simp
next
  case (Plus r)
  have "run (Plus r) text =
        (\<lambda>s. concat (map (star_loop (run r text) (length text)) (run r text s)))"
    by (rule ext) simp
  with advances_seq [OF Plus.IH advances_star_loop [OF Plus.IH]] show ?case by simp
next
  case (Opt r)
  then show ?case unfolding advances_def by auto
qed

lemma attempt_ok:
  assumes "attempt c text i adv = Some m" and "i \<le> length text"
  shows "match_ok py_re c text m"
proof -
  let ?rs = "filter (\<lambda>s'. \<not> adv \<or> i < fst s') (run (ast c) text (i, replicate (ngroups c) (-1, -1)))"
  from assms(1) have "?rs \<noteq> []"
    by (auto simp: attempt_def)
  then obtain s' rest where rs: "?rs = s' # rest" by (cases ?rs) auto
  with assms(1) have m: "m = \<lparr>m_string = text, m_span = (int i, int (fst s')), m_subspans = snd s',
                m_groupindex = []\<rparr>"
    by (simp add: attempt_def)
  have "s' \<in> set ?rs" using rs by simp
  then have "s' \<in> set (run (ast c) text (i, replicate (ngroups c) (-1, -1)))" by simp
  from advancesD [OF advances_run this] assms(2)
  have "i \<le> fst s'" "fst s' \<le> length text" "length (snd s') = ngroups c" by simp_all
  with m show ?thesis by (simp add: match_ok_def py_re_def)
qed

lemma scan_ok:
  "scan c text i adv k = Some m \<Longrightarrow> i + k \<le> Suc (length text) \<Longrightarrow> match_ok py_re c text m"
proof (induction k arbitrary: i adv)
  case 0
  then show ?case by simp
next
  case (Suc k)
  show ?case
  proof (cases "attempt c text i adv")
    case None
    with Suc.prems have "scan c text (Suc i) False k = Some m" by simp
    with Suc.IH Suc.prems(2) show ?thesis by simp
  next
    case (Some m')
    with Suc.prems have "m' = m" by simp
    with Some Suc.prems(2) attempt_ok show ?thesis by simp
  qed
qed

lemma search_from_ok: "search_from c text pos adv = Some m \<Longrightarrow> match_ok py_re c text m"
  unfolding search_from_def
  by (cases "pos \<le> Suc (length text)") (auto dest: scan_ok)

lemma finditer_from_ok: "m \<in> set (finditer_from c t pos adv) \<Longrightarrow> match_ok py_re c t m"
proof (induction c t pos adv rule: finditer_from.induct)
  case (1 c t pos adv)
  show ?case
  proof (cases "search_from c t pos adv")
    case None
    then have "finditer_from c t pos adv = []" by (subst finditer_from.simps) simp
    with 1(2) show ?thesis by simp
  next
    case (Some m')
    have ok: "match_ok py_re c t m'" using Some by (rule search_from_ok)
    show ?thesis
    proof (cases "m = m'")
      case True
      with ok show ?thesis by simp
    next
      case False
      let ?s = "nat (fst (m_span m'))" and ?e = "nat (snd (m_span m'))"
      have unf: "finditer_from c t pos adv =
          (if ?e \<le> length t \<and> (pos < ?e \<or> (\<not> adv \<and> ?e = pos \<and> ?s = ?e))
           then m' # finditer_from c t ?e (?s = ?e) else [m'])"
        using Some by (subst finditer_from.simps) (simp add: Let_def)
      have g: "?e \<le> length t \<and> (pos < ?e \<or> (\<not> adv \<and> ?e = pos \<and> ?s = ?e))"
      proof (rule ccontr)
        assume "\<not> ?thesis"
        with unf have "finditer_from c t pos adv = [m']" by simp
        with 1(2) False show False by simp
      qed
      with unf have "finditer_from c t pos adv = m' # finditer_from c t ?e (?s = ?e)" by simp
      with 1(2) False have mem: "m \<in> set (finditer_from c t ?e (?s = ?e))" by simp
      from 1(1)[OF Some refl refl g mem] show ?thesis .
    qed
  qed
qed

lemma py_re_contract: "re_contract py_re"
  unfolding re_contract_def
proof (intro conjI allI impI)
  fix a t m
  assume "pattern_match py_re a t = Some m"
  then show "match_ok py_re a t m" using attempt_ok [of a t 0 False m] by (simp add: py_re_def)
next
  fix a t m
  assume "pattern_search py_re a t = Some m"
  then show "match_ok py_re a t m" using search_from_ok [of a t 0 False m] by (simp add: py_re_def)
next
  fix a t m
  assume "m \<in> set (pattern_finditer py_re a t)"
  then show "match_ok py_re a t m" using finditer_from_ok [of m a t 0 False] by (simp add: py_re_def)
qed

section \<open>The operations on a valid pattern, and concrete runs\<close>

lemma st_a_reachable: "reachable py_re st_a"
  unfolding st_a_def by (rule reach_compile) (rule reach_init)

lemma parse_a: "re_parse py_re ''a'' 0 = Returned \<lparr>ast = Lit CHR ''a'', ngroups = 0\<rparr>"
  by code_simp

lemma parse_open: "re_parse py_re ''('' 0 = ReError ''missing ), unterminated subpattern at position 0''"
  by code_simp

lemma st_a_cache: "cache st_a (cache_key ''a'' 0) = Some \<lparr>oid = 0, body = \<lparr>ast = Lit CHR ''a'', ngroups = 0\<rparr>\<rparr>"
  by code_simp

lemma parse_email: "re_parse py_re pat_email 0 = Returned email_compiled"
  by code_simp

lemma parse_digits: "re_parse py_re pat_digits 0 = Returned \<lparr>ast = Plus (Cls Digit False), ngroups = 0\<rparr>"
  by code_simp

lemma parse_word: "re_parse py_re pat_word 0 = Returned \<lparr>ast = Plus (Cls Word False), ngroups = 0\<rparr>"
  by code_simp

lemma match_valid:
  assumes "reachable re st" and "re_parse re p f = Returned a"
  shows "fst (match re st p t f) =
         Inr (case pattern_match re a t of Some m \<Rightarrow> result_of m | None \<Rightarrow> no_match)"
proof -
  from compile_valid [OF assms] obtain obj where
    "fst (compile_pattern re st p f) = Inr obj" "body obj = a" by blast
  then show ?thesis
    by (cases "compile_pattern re st p f") (auto simp: match_def split: option.splits)
qed


lemma replace_valid:
  assumes "reachable re st" and "re_parse re p f = Returned a"
  shows "fst (replace re st p t repl f) =
         (case pattern_sub re a repl t of
            Returned s \<Rightarrow> Inr s
          | ReError e \<Rightarrow> Inl (Re_error e)
          | OtherError e \<Rightarrow> Inl (Other_exception e))"
proof -
  from compile_valid [OF assms] obtain obj where
    "fst (compile_pattern re st p f) = Inr obj" "body obj = a" by blast
  then show ?thesis
    by (cases "compile_pattern re st p f") (auto simp: replace_def split: outcome.splits)
qed

lemma email_match_eval: "fst (match py_re (init 0) pat_email ''a@b'' 0) = Inr email_match"
  by code_simp

lemma sub_eval: "pattern_sub py_re email_compiled repl_swap ''write to a@b'' = Returned ''write to b@a''"
  by code_simp

lemma email_nomatch_eval: "pattern_match py_re email_compiled ''write to a@b'' = None"
  by code_simp

lemma digits_search_eval: "pattern_search py_re \<lparr>ast = Plus (Cls Digit False), ngroups = 0\<rparr> ''no numbers here'' = None"
  by code_simp

lemma word_search_eval: "find_pattern py_re pat_word ''Hello, World!'' True = Inr (Some ''Hello'')"
  by code_simp

lemma find_all_eval: "fst (find_all py_re (init 0) pat_email ''x a@b cc@dd'' 0) =
  Inr [\<lparr>matched = True, value_str = ''a@b'', groups = [Some ''a'', Some ''b''], span = [2, 5],
         named_groups = Some []\<rparr>,
      \<lparr>matched = True, value_str = ''cc@dd'', groups = [Some ''cc'', Some ''dd''], span = [6, 11],
         named_groups = Some []\<rparr>]"
  by code_simp

lemma validate_open_eval: "validate_regex py_re ''('' =
   Inl (InvalidRegexError \<lparr>pattern = ''('', input_string = None, position = None,
          message = Some ''missing ), unterminated subpattern at position 0''\<rparr>)"
  by code_simp

section \<open>The claims\<close>

text \<open>
  C1, as stated: the \<open>groups\<close> field of a successful match has the whole match at index 0
  and so one entry more than the pattern has capturing groups. It fails: matching
  \<open>(\w+)@(\w+)\<close> against \<open>a@b\<close> gives the two groups \<open>a\<close> and \<open>b\<close> only, and the
  first of them is not the matched text \<open>a@b\<close>.
\<close>

theorem groups_index0_counterexample:
  "fst (match py_re (init 0) pat_email ''a@b'' 0) = Inr email_match \<and>
   matched email_match \<and>
   pattern_groups py_re email_compiled = 2 \<and>
   length (groups email_match) \<noteq> pattern_groups py_re email_compiled + 1 \<and>
   groups email_match ! 0 \<noteq> Some (value_str email_match)"
proof -
  have "pattern_groups py_re email_compiled = 2"
    by (simp add: py_re_def email_compiled_def)
  with email_match_eval show ?thesis
    by (simp add: email_match_def)
qed

text \<open>
  C1, amended: when the matcher reports a match for a valid pattern, \<open>groups\<close> is what
  \<open>Match.groups()\<close> returns, the texts of the capturing groups 1 to n and nothing else:
  it has exactly as many entries as the pattern has capturing groups. The whole match is
  in the \<open>value\<close> field.
\<close>

theorem groups_are_subgroups:
  assumes "re_contract re" and "reachable re st" and "re_parse re p f = Returned a"
    and "fst (match re st p t f) = Inr r" and "matched r"
  shows "\<exists>m. pattern_match re a t = Some m \<and> value_str r = group0 m \<and>
             groups r = groups_of m \<and> length (groups r) = pattern_groups re a"
proof (cases "pattern_match re a t")
  case None
  with match_valid [OF assms(2,3), of t] assms(4,5) show ?thesis
    by (simp add: no_match_def)
next
  case (Some m)
  from assms(1) Some have "match_ok re a t m" unfolding re_contract_def by blast
  then have "length (m_subspans m) = pattern_groups re a" by (simp add: match_ok_def)
  with match_valid [OF assms(2,3), of t] assms(4) Some show ?thesis
    by (simp add: result_of_def groups_of_def)
qed

theorem groups_are_subgroups_witness:
  "re_contract py_re \<and> reachable py_re (init 0) \<and>
   re_parse py_re pat_email 0 = Returned email_compiled \<and>
   fst (match py_re (init 0) pat_email ''a@b'' 0) = Inr email_match \<and> matched email_match \<and>
   (\<exists>m. pattern_match py_re email_compiled ''a@b'' = Some m \<and> value_str email_match = group0 m \<and>
        groups email_match = groups_of m \<and> length (groups email_match) = 2)"
proof -
  have r: "reachable py_re (init 0)" by (rule reach_init)
  have m: "matched email_match" by (simp add: email_match_def)
  have n: "pattern_groups py_re email_compiled = 2" by (simp add: py_re_def email_compiled_def)
  from groups_are_subgroups [OF py_re_contract r parse_email email_match_eval m] n
    py_re_contract r parse_email email_match_eval m
  show ?thesis by simp
qed

text \<open>
  C2: for a pattern and flags that \<open>re.compile\<close> rejects, \<open>compile_pattern\<close> raises (a
  \<open>RegexError\<close> with the library's text when the library raised \<open>re.error\<close>) and leaves
  the state as it was; the key has no entry before or after, so a later call compiles again.
\<close>

theorem compile_error_not_cached:
  assumes "reachable re st" and "\<forall>a. re_parse re p f \<noteq> Returned a"
  shows "\<exists>e. compile_pattern re st p f = (Inl e, st) \<and>
             cache st (cache_key p f) = None \<and>
             (\<forall>msg. re_parse re p f = ReError msg \<longrightarrow>
                e = RegexError (''Invalid regex pattern: '' @ msg))"
proof -
  have none: "cache st (cache_key p f) = None"
  proof (cases "cache st (cache_key p f)")
    case None then show ?thesis .
  next
    case (Some obj)
    with assms show ?thesis using reachable_cached_body by fastforce
  qed
  show ?thesis
  proof (cases "re_parse re p f")
    case (Returned a)
    with assms(2) show ?thesis by simp
  next
    case (ReError msg)
    with none show ?thesis by (simp add: compile_pattern_def re_compile_def)
  next
    case (OtherError x)
    with none show ?thesis by (simp add: compile_pattern_def re_compile_def)
  qed
qed

theorem compile_error_not_cached_witness:
  "reachable py_re st_a \<and> (\<forall>a. re_parse py_re ''('' 0 \<noteq> Returned a) \<and>
   compile_pattern py_re st_a ''('' 0 =
     (Inl (RegexError ''Invalid regex pattern: missing ), unterminated subpattern at position 0''), st_a)"
proof -
  have h: "\<forall>a. re_parse py_re ''('' 0 \<noteq> Returned a" by (simp add: parse_open)
  from compile_error_not_cached [OF st_a_reachable h] parse_open st_a_reachable h
  show ?thesis by auto
qed

text \<open>
  C3: for a valid pattern and flags, \<open>compile_pattern\<close> returns a compiled pattern, and a
  second call with the same pattern and flags returns the identical object (same identity,
  same content) without changing the state; matching through the cache then runs that
  object.
\<close>

theorem compile_twice_identical:
  assumes "reachable re st" and "re_parse re p f = Returned a"
  shows "\<exists>obj st1. compile_pattern re st p f = (Inr obj, st1) \<and> body obj = a \<and>
           compile_pattern re st1 p f = (Inr obj, st1) \<and>
           (\<forall>t. match re st1 p t f =
              (case pattern_match re a t of
                 Some m \<Rightarrow> (Inr (result_of m), st1)
               | None \<Rightarrow> (Inr no_match, st1)))"
proof -
  obtain r st1 where c: "compile_pattern re st p f = (r, st1)" by (cases "compile_pattern re st p f")
  with compile_valid [OF assms] obtain obj where r: "r = Inr obj" and b: "body obj = a" by auto
  from c r have c1: "compile_pattern re st p f = (Inr obj, st1)" by simp
  then have c2: "compile_pattern re st1 p f = (Inr obj, st1)" by (rule compile_twice)
  have "\<forall>t. match re st1 p t f =
              (case pattern_match re a t of
                 Some m \<Rightarrow> (Inr (result_of m), st1)
               | None \<Rightarrow> (Inr no_match, st1))"
    using c2 b by (simp add: match_def)
  with c1 c2 b show ?thesis by blast
qed

theorem compile_twice_identical_witness:
  "reachable py_re (init 5) \<and>
   re_parse py_re ''a'' 0 = Returned \<lparr>ast = Lit CHR ''a'', ngroups = 0\<rparr> \<and>
   (\<exists>obj st1. compile_pattern py_re (init 5) ''a'' 0 = (Inr obj, st1) \<and>
      compile_pattern py_re st1 ''a'' 0 = (Inr obj, st1))"
proof -
  have r: "reachable py_re (init 5)" by (rule reach_init)
  from compile_twice_identical [OF r parse_a] r parse_a show ?thesis by blast
qed

text \<open>
  C4: two different pairs of pattern and flags have different cache keys, and compiling
  one of them leaves the entry of the other untouched.
\<close>

theorem cache_keys_distinct:
  assumes "(p1, f1) \<noteq> (p2, f2)"
  shows "cache_key p1 f1 \<noteq> cache_key p2 f2 \<and>
         cache (snd (compile_pattern re st p2 f2)) (cache_key p1 f1) = cache st (cache_key p1 f1)"
proof -
  have ne: "cache_key p1 f1 \<noteq> cache_key p2 f2"
    using assms cache_key_inj by blast
  then have "cache (snd (compile_pattern re st p2 f2)) (cache_key p1 f1) = cache st (cache_key p1 f1)"
    by (auto simp: compile_pattern_def Let_def split: option.splits outcome.splits)
  with ne show ?thesis by simp
qed

theorem cache_keys_distinct_witness:
  "(''a'', 0::int) \<noteq> (''b'', 0) \<and>
   cache_key ''a'' 0 \<noteq> cache_key ''b'' 0 \<and>
   cache (snd (compile_pattern py_re st_a ''b'' 0)) (cache_key ''a'' 0) =
     Some \<lparr>oid = 0, body = \<lparr>ast = Lit CHR ''a'', ngroups = 0\<rparr>\<rparr>"
proof -
  have h: "(''a'', 0::int) \<noteq> (''b'', 0)" by simp
  from cache_keys_distinct [OF h, of py_re st_a] st_a_cache h show ?thesis by simp
qed

text \<open>
  C5, as stated: the \<open>InvalidRegexError\<close> raised for an invalid pattern carries the
  offending offset. It fails: for the unclosed \<open>(\<close> the context of the error has no
  position; the offset 0 appears only inside the library's message text.
\<close>

theorem invalid_regex_position_counterexample:
  "validate_regex py_re ''('' =
     Inl (InvalidRegexError
       \<lparr>pattern = ''('', input_string = None, position = None,
        message = Some ''missing ), unterminated subpattern at position 0''\<rparr>) \<and>
   position
       \<lparr>pattern = ''('', input_string = None, position = None,
        message = Some ''missing ), unterminated subpattern at position 0''\<rparr> \<noteq> Some 0"
  using validate_open_eval by simp

text \<open>
  C5, amended: for a non-empty pattern that \<open>re.compile\<close> rejects with \<open>re.error\<close>,
  \<open>validate_regex\<close> raises \<open>InvalidRegexError\<close> whose context carries the pattern and, as
  message, the text of the library's error; the position field of the context is not set.
\<close>

theorem invalid_regex_context:
  assumes "p \<noteq> []" and "re_parse re p 0 = ReError msg"
  shows "validate_regex re p =
           Inl (InvalidRegexError
             \<lparr>pattern = p, input_string = None, position = None, message = Some msg\<rparr>)"
  using assms by (simp add: validate_regex_def)

theorem invalid_regex_context_witness:
  "''a**'' \<noteq> [] \<and> re_parse py_re ''a**'' 0 = ReError ''multiple repeat at position 2'' \<and>
   validate_regex py_re ''a**'' =
     Inl (InvalidRegexError
       \<lparr>pattern = ''a**'', input_string = None, position = None,
        message = Some ''multiple repeat at position 2''\<rparr>)"
proof -
  have h: "''a**'' \<noteq> []" by simp
  have e: "re_parse py_re ''a**'' 0 = ReError ''multiple repeat at position 2''" by code_simp
  from invalid_regex_context [OF h e] h e show ?thesis by simp
qed

text \<open>
  C6: \<open>validate_regex\<close> raises \<open>EmptyPatternError\<close> for the empty pattern and for no
  other pattern, and so does \<open>find_pattern\<close>, which validates first.
\<close>

theorem empty_pattern_error:
  "validate_regex re [] =
     Inl (EmptyPatternError
       \<lparr>pattern = [], input_string = None, position = None,
        message = Some ''Empty pattern provided''\<rparr>) \<and>
   (\<exists>ctx. validate_regex re p = Inl (EmptyPatternError ctx)) = (p = []) \<and>
   (\<exists>ctx. find_pattern re p t b = Inl (EmptyPatternError ctx)) = (p = [])"
proof -
  have v: "(\<exists>ctx. validate_regex re p = Inl (EmptyPatternError ctx)) = (p = [])"
    by (auto simp: validate_regex_def split: outcome.splits)
  have f: "(\<exists>ctx. find_pattern re p t b = Inl (EmptyPatternError ctx)) = (p = [])"
  proof (cases "p = []")
    case True
    then show ?thesis by (simp add: find_pattern_def validate_regex_def)
  next
    case False
    then show ?thesis
      by (auto simp: find_pattern_def validate_regex_def Let_def split: outcome.splits)
  qed
  show ?thesis using v f by (simp add: validate_regex_def)
qed

theorem empty_pattern_error_witness:
  "validate_regex py_re [] =
     Inl (EmptyPatternError
       \<lparr>pattern = [], input_string = None, position = None,
        message = Some ''Empty pattern provided''\<rparr>) \<and>
   \<not> (\<exists>ctx. validate_regex py_re ''('' = Inl (EmptyPatternError ctx))"
  using empty_pattern_error [of py_re "''(''"] by simp

text \<open>
  C7: for a non-empty valid pattern, \<open>find_pattern\<close> with \<open>raise_if_not_found=True\<close>
  raises \<open>PatternNotFoundError\<close> with the pattern and the whole input text in its context
  when the search finds nothing, and returns the text of the match that the search found
  otherwise.
\<close>

theorem find_pattern_required:
  assumes "p \<noteq> []" and "re_parse re p 0 = Returned a"
  shows "find_pattern re p t True =
           (case pattern_search re a t of
              None \<Rightarrow>
                Inl (PatternNotFoundError
                  \<lparr>pattern = p, input_string = Some t, position = Some 0,
                   message = Some ''Pattern not found in input string''\<rparr>)
            | Some m \<Rightarrow> Inr (Some (group0 m)))"
  using assms by (simp add: find_pattern_def validate_regex_def Let_def split: option.splits)

theorem find_pattern_required_witness:
  "pat_digits \<noteq> [] \<and>
   re_parse py_re pat_digits 0 = Returned \<lparr>ast = Plus (Cls Digit False), ngroups = 0\<rparr> \<and>
   find_pattern py_re pat_digits ''no numbers here'' True =
     Inl (PatternNotFoundError
       \<lparr>pattern = pat_digits, input_string = Some ''no numbers here'', position = Some 0,
        message = Some ''Pattern not found in input string''\<rparr>)"
proof -
  have h: "pat_digits \<noteq> []" by (simp add: pat_digits_def)
  from find_pattern_required [OF h parse_digits, of "''no numbers here''"] digits_search_eval
    h parse_digits
  show ?thesis by simp
qed




text \<open>
  C9: replacing the matches of \<open>(\w+)@(\w+)\<close> in \<open>write to a@b\<close> by the template
  \<open>\2@\1\<close> returns \<open>write to b@a\<close>, whatever the cache held before.
\<close>

theorem replace_swaps_groups:
  assumes "reachable py_re st"
  shows "fst (replace py_re st pat_email ''write to a@b'' repl_swap 0) = Inr ''write to b@a''"
  using replace_valid [OF assms parse_email, of "''write to a@b''" repl_swap] sub_eval
  by simp

theorem replace_swaps_groups_witness:
  "reachable py_re st_a \<and>
   fst (replace py_re st_a pat_email ''write to a@b'' repl_swap 0) = Inr ''write to b@a''"
  using replace_swaps_groups [OF st_a_reachable] st_a_reachable by simp

text \<open>
  C10: for a valid pattern that does not match at the start of the text, \<open>match\<close> returns
  (and does not raise) the result with \<open>matched = False\<close>, the empty string as value, the
  empty tuple as groups and as span, and \<open>None\<close> as named groups.
\<close>

theorem failed_match_sentinels:
  assumes "reachable re st" and "re_parse re p f = Returned a" and "pattern_match re a t = None"
  shows "fst (match re st p t f) =
           Inr \<lparr>matched = False, value_str = [], groups = [], span = [], named_groups = None\<rparr>"
  using match_valid [OF assms(1,2), of t] assms(3) by (simp add: no_match_def)

theorem failed_match_sentinels_witness:
  "reachable py_re (init 0) \<and> re_parse py_re pat_email 0 = Returned email_compiled \<and>
   pattern_match py_re email_compiled ''write to a@b'' = None \<and>
   fst (match py_re (init 0) pat_email ''write to a@b'' 0) =
     Inr \<lparr>matched = False, value_str = [], groups = [], span = [], named_groups = None\<rparr>"
proof -
  have r: "reachable py_re (init 0)" by (rule reach_init)
  from failed_match_sentinels [OF r parse_email email_nomatch_eval] r parse_email email_nomatch_eval
  show ?thesis by simp
qed

end
